theory Spec2Isabelle
  imports Main
begin

section \<open>Bugziller: the recursive dependency fetcher of loop-velocity\<close>

text \<open>
  The embedding follows the module \<open>Bugziller\<close> of \<open>src/everything.js\<close>: \<open>isMeta\<close>
  (lines 581 to 588), \<open>getBug\<close> (603 to 622), \<open>getDependencies\<close> (628 to 636) and
  \<open>getAll\<close> (642 to 658). The functions \<open>getBug2\<close>,
  \<open>getDependencies2\<close> and \<open>getAll2\<close> of \<open>src/getAll.js\<close> are the same code, except that
  the batch is joined with commas by the caller of \<open>getBug2\<close> instead of inside it.
\<close>

subsection \<open>Data\<close>

text \<open>
  A bug object of the REST response, with the fields requested in \<open>fields\<close>. A summary
  that is missing from the object is \<open>None\<close>.
\<close>

record bug =
  bug_id :: nat
  summary :: "string option"
  resolution :: string
  depends_on :: "nat list"

text \<open>
  A rejected promise carries an error. \<open>fetch(query)\<close> rejects when the request cannot
  complete, \<open>response.json()\<close> rejects when the body is not JSON, and a body without
  the array \<open>bugs\<close> makes the next callback throw, which rejects the promise as well.
\<close>

datatype error = NetworkError | MalformedResponseError

text \<open>
  The network: what \<open>fetch(query).then(response => response.json())\<close> settles to for a
  batch of identifiers, the array \<open>data.bugs\<close> or a rejection.
\<close>

type_synonym fetch = "nat list \<Rightarrow> error + bug list"

text \<open>
  The state of the module: the hashtable \<open>checkedBugs\<close>, declared once at module level
  (\<open>var checkedBugs = {}\<close>), and the log of the batches sent to the network so far. The
  table only ever stores \<open>true\<close>, so it is the set of its keys.
\<close>

record state =
  checkedBugs :: "nat set"
  requests :: "nat list list"

definition fresh :: state where
  "fresh = \<lparr>checkedBugs = {}, requests = []\<rparr>"

subsection \<open>isMeta\<close>

text \<open>
  \<open>metaReg.test(s)\<close> for the regular expression \<open>/[\[|\(]meta[\]|\)]/\<close>: somewhere in
  \<open>s\<close> one of the characters \<open>[ | (\<close>, then \<open>meta\<close> in lower case, then one of \<open>] | )\<close>.
\<close>

fun metaReg_test :: "string \<Rightarrow> bool" where
  "metaReg_test [] = False"
| "metaReg_test (c # cs) =
     ((c \<in> set ''[|('' \<and> take 4 cs = ''meta'' \<and>
       (case drop 4 cs of [] \<Rightarrow> False | d # _ \<Rightarrow> d \<in> set '']|)''))
      \<or> metaReg_test cs)"

text \<open>
  \<open>isMeta(bug)\<close>: the argument \<open>None\<close> is \<open>null\<close> or \<open>undefined\<close>; \<open>!bug.summary\<close> holds
  for a missing summary and for the empty string.
\<close>

definition isMeta :: "bug option \<Rightarrow> bool" where
  "isMeta b =
     (case b of
        None \<Rightarrow> False
      | Some bg \<Rightarrow>
          (case summary bg of
             None \<Rightarrow> False
           | Some s \<Rightarrow> if s = [] then False else metaReg_test s))"

subsection \<open>getBug\<close>

text \<open>\<open>dataList.splice(position, 1)\<close>: the array without the element at \<open>position\<close>.\<close>

definition splice :: "nat \<Rightarrow> 'a list \<Rightarrow> 'a list" where
  "splice position xs = take position xs @ drop (Suc position) xs"

text \<open>
  \<open>dataList.forEach((bugData, position) => ...)\<close> in \<open>getBug\<close>. \<open>forEach\<close> reads the length
  once, before the first call, and then visits the positions \<open>0, 1, ...\<close> below that
  length, skipping a position that the array no longer has. The first argument counts the
  positions still to visit, the second is the current position. The callback mutates the
  array it iterates: a bug already in the table is spliced out, any other is entered in
  the table.
\<close>

fun getBug_forEach :: "nat \<Rightarrow> nat \<Rightarrow> bug list \<Rightarrow> nat set \<Rightarrow> bug list \<times> nat set" where
  "getBug_forEach 0 position dataList checked = (dataList, checked)"
| "getBug_forEach (Suc m) position dataList checked =
     (if position < length dataList then
        (if bug_id (dataList ! position) \<in> checked
         then getBug_forEach m (Suc position) (splice position dataList) checked
         else getBug_forEach m (Suc position) dataList
                (insert (bug_id (dataList ! position)) checked))
      else getBug_forEach m (Suc position) dataList checked)"

text \<open>
  \<open>getBug(bugArray)\<close>: one request for the whole batch, then the purge of the response.
  A rejection passes through both \<open>then\<close> callbacks untouched.
\<close>

definition getBug :: "fetch \<Rightarrow> state \<Rightarrow> nat list \<Rightarrow> (error + bug list) \<times> state" where
  "getBug fetch st bugArray =
     (let st1 = st\<lparr>requests := requests st @ [bugArray]\<rparr> in
      case fetch bugArray of
        Inl e \<Rightarrow> (Inl e, st1)
      | Inr dataList \<Rightarrow>
          (case getBug_forEach (length dataList) 0 dataList (checkedBugs st1) of
             (purged, checked) \<Rightarrow> (Inr purged, st1\<lparr>checkedBugs := checked\<rparr>)))"

subsection \<open>getAll and getDependencies\<close>

text \<open>
  The two functions call each other through promise chains, and nothing bounds the
  recursion, so the model takes fuel: the depth of nested \<open>getAll\<close> calls allowed. The
  value \<open>None\<close> says that the fuel ran out; a promise that never settles is \<open>None\<close> for
  every amount of fuel. \<open>Some (Inl e, st)\<close> is a rejection with \<open>e\<close>, and
  \<open>Some (Inr ids, st)\<close> a promise resolved with the list \<open>ids\<close>; \<open>st\<close> is the module state
  at that moment.

  \<open>getDependencies\<close> is a \<open>reduce\<close> over the purged records; its accumulator \<open>partial\<close>
  is the value the promise \<open>p\<close> resolves to.
\<close>

fun getAll :: "nat \<Rightarrow> fetch \<Rightarrow> state \<Rightarrow> nat list \<Rightarrow> ((error + nat list) \<times> state) option"
  and getDependencies ::
    "nat \<Rightarrow> fetch \<Rightarrow> state \<Rightarrow> nat list \<Rightarrow> bug list \<Rightarrow> ((error + nat list) \<times> state) option"
where
  "getAll n fetch st [] = Some (Inr [], st)"
| "getAll 0 fetch st (b # bs) = None"
| "getAll (Suc n) fetch st (b # bs) =
     (case getBug fetch st (b # bs) of
        (Inl e, st1) \<Rightarrow> Some (Inl e, st1)
      | (Inr infoArray, st1) \<Rightarrow>
          (case getDependencies n fetch st1 [] infoArray of
             None \<Rightarrow> None
           | Some (Inl e, st2) \<Rightarrow> Some (Inl e, st2)
           | Some (Inr depends, st2) \<Rightarrow> Some (Inr (map bug_id infoArray @ depends), st2)))"
| "getDependencies n fetch st partial [] = Some (Inr partial, st)"
| "getDependencies n fetch st partial (c # cs) =
     (case getAll n fetch st (depends_on c) of
        None \<Rightarrow> None
      | Some (Inl e, st1) \<Rightarrow> Some (Inl e, st1)
      | Some (Inr depList, st1) \<Rightarrow> getDependencies n fetch st1 (partial @ depList) cs)"

subsection \<open>The older traversal of \<open>src/getAll.js\<close>\<close>

text \<open>
  \<open>src/getAll.js\<close> also keeps an older traversal, one bug per request: \<open>isMeta\<close> (lines
  18 to 21), \<open>getBug\<close> (23 to 38), \<open>getDependencies\<close> (40 to 49) and \<open>getAll\<close> (51 to
  67). Its only call is commented out. The names carry the suffix \<open>_one\<close> here, because
  the batch traversal above has the plain names. It shares the table \<open>checkedBugs\<close> with
  \<open>getAll2\<close>.

  \<open>getBug\<close> resolves with the parsed body \<open>data\<close> itself (\<open>return data;//.bugs[0]\<close>), and
  the callers read \<open>data.summary\<close> and \<open>data.depends_on\<close>. A body is modelled by these
  two properties, \<open>None\<close> when the body does not have them. The body the tracker sends,
  an object with the array \<open>bugs\<close>, has neither.
\<close>

record body =
  top_summary :: "string option"
  top_depends_on :: "nat list option"

text \<open>
  The argument of the older \<open>getAll\<close>: the number of a bug, as the entries of
  \<open>depends_on\<close> are, or the string of its decimal digits. Both name the same property of
  \<open>checkedBugs\<close> and give the same query.
\<close>

datatype bugNumber = Number nat | Text nat

fun key :: "bugNumber \<Rightarrow> nat" where
  "key (Number n) = n"
| "key (Text n) = n"

text \<open>
  A promise of the older traversal is rejected by the network or by a \<open>TypeError\<close> thrown
  in a callback.
\<close>

datatype rejection = Rejected error | TypeError

type_synonym fetch_one = "nat \<Rightarrow> error + body"

text \<open>\<open>s.toLowerCase()\<close> on the letters \<open>A\<close> to \<open>Z\<close>, and \<open>s.indexOf(p) !== -1\<close>.\<close>

definition toLowerCase :: "string \<Rightarrow> string" where
  "toLowerCase s =
     map (\<lambda>c. if 65 \<le> (of_char c :: nat) \<and> (of_char c :: nat) \<le> 90
              then char_of ((of_char c :: nat) + 32) else c) s"

fun indexOf_found :: "string \<Rightarrow> string \<Rightarrow> bool" where
  "indexOf_found p [] = (p = [])"
| "indexOf_found p (c # cs) = (take (length p) (c # cs) = p \<or> indexOf_found p cs)"

text \<open>\<open>isMeta(bug)\<close> of line 18: \<open>bug.summary.toLowerCase()\<close> throws when there is no summary.\<close>

definition isMeta_one :: "body \<Rightarrow> rejection + bool" where
  "isMeta_one bug =
     (case top_summary bug of
        None \<Rightarrow> Inl TypeError
      | Some s \<Rightarrow> Inr (indexOf_found ''meta'' (toLowerCase s)))"

text \<open>
  \<open>getBug(bugList)\<close> of line 23: the request, then \<open>bugList.split(',')\<close>, which a number
  does not have, then the entry in the table.
\<close>

definition getBug_one :: "fetch_one \<Rightarrow> state \<Rightarrow> bugNumber \<Rightarrow> (rejection + body) \<times> state" where
  "getBug_one fetch st bugList =
     (let st1 = st\<lparr>requests := requests st @ [[key bugList]]\<rparr> in
      case fetch (key bugList) of
        Inl e \<Rightarrow> (Inl (Rejected e), st1)
      | Inr data \<Rightarrow>
          (case bugList of
             Number n \<Rightarrow> (Inl TypeError, st1)
           | Text n \<Rightarrow> (Inr data, st1\<lparr>checkedBugs := insert n (checkedBugs st1)\<rparr>)))"

text \<open>
  \<open>getAll(bugNumber)\<close> of line 51 and \<open>getDependencies(bug)\<close> of line 40, with fuel as
  above. The table is consulted before the request. \<open>bug.depends_on.reduce\<close> throws when
  the body has no \<open>depends_on\<close>.
\<close>

fun getAll_one ::
    "nat \<Rightarrow> fetch_one \<Rightarrow> state \<Rightarrow> bugNumber \<Rightarrow> ((rejection + body list) \<times> state) option"
  and getDependencies_one ::
    "nat \<Rightarrow> fetch_one \<Rightarrow> state \<Rightarrow> body list \<Rightarrow> nat list \<Rightarrow>
       ((rejection + body list) \<times> state) option"
where
  "getAll_one 0 fetch st bugNumber =
     (if key bugNumber \<in> checkedBugs st then Some (Inr [], st) else None)"
| "getAll_one (Suc n) fetch st bugNumber =
     (if key bugNumber \<in> checkedBugs st then Some (Inr [], st)
      else
        (case getBug_one fetch st bugNumber of
           (Inl r, st1) \<Rightarrow> Some (Inl r, st1)
         | (Inr bug, st1) \<Rightarrow>
             (case isMeta_one bug of
                Inl r \<Rightarrow> Some (Inl r, st1)
              | Inr meta \<Rightarrow>
                  (case top_depends_on bug of
                     None \<Rightarrow> Some (Inl TypeError, st1)
                   | Some deps \<Rightarrow>
                       (case getDependencies_one n fetch st1 [] deps of
                          None \<Rightarrow> None
                        | Some (Inl r, st2) \<Rightarrow> Some (Inl r, st2)
                        | Some (Inr depList, st2) \<Rightarrow>
                            Some (Inr ((if \<not> meta then [bug] else []) @ depList), st2))))))"
| "getDependencies_one n fetch st partial [] = Some (Inr partial, st)"
| "getDependencies_one n fetch st partial (c # cs) =
     (case getAll_one n fetch st (Number c) of
        None \<Rightarrow> None
      | Some (Inl r, st1) \<Rightarrow> Some (Inl r, st1)
      | Some (Inr depList, st1) \<Rightarrow> getDependencies_one n fetch st1 (partial @ depList) cs)"

text \<open>A network that answers every request with the body \<open>data\<close>.\<close>

definition answer_with :: "body \<Rightarrow> fetch_one" where
  "answer_with data i = Inr data"

subsection \<open>A bug source over a fixed collection of bugs\<close>

text \<open>
  A tracker that holds the bugs \<open>db\<close> and answers a batch with the records it has for the
  requested identifiers, in the order it stores them. It stands for the network in the
  concrete runs below.
\<close>

definition serve :: "bug list \<Rightarrow> fetch" where
  "serve db ids = Inr (filter (\<lambda>b. bug_id b \<in> set ids) db)"

text \<open>A bug with the given identifier and dependency list, open and with a plain summary.\<close>

definition mk_bug :: "nat \<Rightarrow> nat list \<Rightarrow> bug" where
  "mk_bug i deps = \<lparr>bug_id = i, summary = Some ''bug'', resolution = [], depends_on = deps\<rparr>"

text \<open>The network \<open>fetch\<close>, except that the request for the batch \<open>bad\<close> fails with \<open>e\<close>.\<close>

definition fails_at :: "nat list \<Rightarrow> error \<Rightarrow> fetch \<Rightarrow> fetch" where
  "fails_at bad e fetch ids = (if ids = bad then Inl e else fetch ids)"

subsection \<open>Auxiliary notions for the proofs\<close>

text \<open>
  The same loop as \<open>getBug_forEach\<close>, read off the list instead of positions: after a
  bug that is spliced out, the bug that follows it is kept without being looked at.
  Lemma \<open>getBug_forEach_purge\<close> proves that the two agree.
\<close>

fun purge :: "bug list \<Rightarrow> nat set \<Rightarrow> bug list \<times> nat set" where
  "purge [] checked = ([], checked)"
| "purge [b] checked =
     (if bug_id b \<in> checked then ([], checked) else ([b], insert (bug_id b) checked))"
| "purge (b # b' # bs) checked =
     (if bug_id b \<in> checked
      then (b' # fst (purge bs checked), snd (purge bs checked))
      else (b # fst (purge (b' # bs) (insert (bug_id b) checked)),
            snd (purge (b' # bs) (insert (bug_id b) checked))))"

text \<open>A network whose records are rewritten by \<open>f\<close> before the caller sees them.\<close>

definition relabel :: "(bug \<Rightarrow> bug) \<Rightarrow> fetch \<Rightarrow> fetch" where
  "relabel f fetch ids =
     (case fetch ids of Inl e \<Rightarrow> Inl e | Inr dataList \<Rightarrow> Inr (map f dataList))"

text \<open>
  What the requests \<open>new\<close> of a settled call look like: a resolved call sent only
  requests that succeeded; a call rejected with \<open>e\<close> sent requests that succeeded and
  then one last request, which failed with \<open>e\<close>.
\<close>

definition settled_log :: "fetch \<Rightarrow> nat list list \<Rightarrow> error + 'a \<Rightarrow> bool" where
  "settled_log fetch new out =
     (case out of
        Inr _ \<Rightarrow> (\<forall>b\<in>set new. \<exists>rs. fetch b = Inr rs)
      | Inl e \<Rightarrow> new \<noteq> [] \<and> fetch (last new) = Inl e \<and>
                 (\<forall>b\<in>set (butlast new). \<exists>rs. fetch b = Inr rs))"

subsection \<open>Dependency graphs\<close>

text \<open>
  A dependency graph gives, for every identifier the tracker knows, the list of the
  identifiers it depends on. A network answers for the graph when every response holds
  only requested bugs, each with the dependency list of the graph, and holds a record for
  every requested identifier that the graph knows; the order of the records is free.
\<close>

type_synonym graph = "nat \<Rightarrow> nat list option"

definition answers :: "graph \<Rightarrow> fetch \<Rightarrow> bool" where
  "answers g fetch =
     (\<forall>ids. \<exists>dataList. fetch ids = Inr dataList \<and>
        (\<forall>b\<in>set dataList. bug_id b \<in> set ids \<and> g (bug_id b) = Some (depends_on b)) \<and>
        (\<forall>i\<in>set ids. i \<in> dom g \<longrightarrow> i \<in> bug_id ` set dataList))"

definition graph_of :: "bug list \<Rightarrow> graph" where
  "graph_of db = map_of (map (\<lambda>b. (bug_id b, depends_on b)) db)"

text \<open>
  The identifiers reachable from the roots along the depends-on relation. An identifier
  that the tracker does not know has no record and is not a node of the graph.
\<close>

inductive_set reachable :: "graph \<Rightarrow> nat list \<Rightarrow> nat set"
  for g :: graph and roots :: "nat list" where
  root: "i \<in> set roots \<Longrightarrow> g i = Some deps \<Longrightarrow> i \<in> reachable g roots"
| dep: "i \<in> reachable g roots \<Longrightarrow> g i = Some deps \<Longrightarrow> j \<in> set deps \<Longrightarrow>
        g j = Some deps' \<Longrightarrow> j \<in> reachable g roots"

text \<open>Every known dependency of a member of \<open>R\<close> is in \<open>S\<close> or in \<open>R\<close>.\<close>

definition closed_in :: "graph \<Rightarrow> nat set \<Rightarrow> nat set \<Rightarrow> bool" where
  "closed_in g S R =
     (\<forall>i\<in>R. \<forall>deps. g i = Some deps \<longrightarrow> (\<forall>j\<in>set deps. j \<in> dom g \<longrightarrow> j \<in> S \<union> R))"

text \<open>
  A graph without dependency cycles has a rank that falls along every dependency between
  known bugs. The cost of an identifier bounds the fuel its traversal needs.
\<close>

definition ranked :: "graph \<Rightarrow> (nat \<Rightarrow> nat) \<Rightarrow> bool" where
  "ranked g rank =
     (\<forall>i deps. g i = Some deps \<longrightarrow> (\<forall>j\<in>set deps. j \<in> dom g \<longrightarrow> rank j < rank i))"

definition cost :: "graph \<Rightarrow> (nat \<Rightarrow> nat) \<Rightarrow> nat \<Rightarrow> nat" where
  "cost g rank i = (if i \<in> dom g then Suc (rank i) else 0)"

subsection \<open>The traversal as the specification words it\<close>

text \<open>
  Section 4.2 of the specification, for comparison with \<open>getAll\<close>: fetch the pending
  batch, drop the records already visited and mark the survivors, take the union of the
  survivors' dependency lists, without the identifiers already visited, as the next
  batch, and return the survivors followed by the result of the next layer. The fuel
  counts layers.
\<close>

fun spec_collect :: "nat \<Rightarrow> fetch \<Rightarrow> nat set \<Rightarrow> nat list \<Rightarrow> (error + nat list) option" where
  "spec_collect n fetch visited [] = Some (Inr [])"
| "spec_collect 0 fetch visited (b # bs) = None"
| "spec_collect (Suc n) fetch visited (b # bs) =
     (case fetch (b # bs) of
        Inl e \<Rightarrow> Some (Inl e)
      | Inr records \<Rightarrow>
          (let survivors = filter (\<lambda>r. bug_id r \<notin> visited) records;
               visited' = visited \<union> bug_id ` set survivors;
               batch = filter (\<lambda>i. i \<notin> visited') (remdups (concat (map depends_on survivors)))
           in case spec_collect n fetch visited' batch of
                None \<Rightarrow> None
              | Some (Inl e) \<Rightarrow> Some (Inl e)
              | Some (Inr rest) \<Rightarrow> Some (Inr (map bug_id survivors @ rest))))"

section \<open>Auxiliary lemmas\<close>

subsection \<open>The purge of a response\<close>

lemma getBug_forEach_past_end:
  "length dataList \<le> position \<Longrightarrow> getBug_forEach m position dataList checked = (dataList, checked)"
  by (induction m arbitrary: position) auto

lemma splice_at_length: "splice (length pre) (pre @ b # bs) = pre @ bs"
  by (simp add: splice_def)

lemma getBug_forEach_purge_aux:
  "length xs \<le> m \<Longrightarrow>
   getBug_forEach m (length pre) (pre @ xs) checked =
     (pre @ fst (purge xs checked), snd (purge xs checked))"
proof (induction m arbitrary: pre xs checked)
  case 0
  then show ?case by simp
next
  case (Suc m)
  show ?case
  proof (cases xs)
    case Nil
    then show ?thesis by (simp add: getBug_forEach_past_end)
  next
    case (Cons b bs)
    note xs = Cons
    show ?thesis
    proof (cases "bug_id b \<in> checked")
      case True
      show ?thesis
      proof (cases bs)
        case Nil
        with True xs show ?thesis
          by (simp add: getBug_forEach_past_end splice_at_length)
      next
        case (Cons b' bs')
        have "getBug_forEach m (length (pre @ [b'])) ((pre @ [b']) @ bs') checked =
                ((pre @ [b']) @ fst (purge bs' checked), snd (purge bs' checked))"
          using Suc.prems xs Cons by (intro Suc.IH) simp
        with True xs Cons show ?thesis
          by (simp add: splice_at_length)
      qed
    next
      case False
      have "getBug_forEach m (length (pre @ [b])) ((pre @ [b]) @ bs) (insert (bug_id b) checked) =
              ((pre @ [b]) @ fst (purge bs (insert (bug_id b) checked)),
               snd (purge bs (insert (bug_id b) checked)))"
        using Suc.prems xs by (intro Suc.IH) simp
      with False xs show ?thesis
        by (cases bs) simp_all
    qed
  qed
qed

lemma getBug_forEach_purge:
  "getBug_forEach (length dataList) 0 dataList checked = purge dataList checked"
  using getBug_forEach_purge_aux[of dataList "length dataList" "[]" checked] by simp

lemma purge_subset: "set (fst (purge xs C)) \<subseteq> set xs"
  by (induction xs C rule: purge.induct) auto

lemma purge_checked_mono: "C \<subseteq> snd (purge xs C)"
  by (induction xs C rule: purge.induct) auto

lemma purge_checked_new: "snd (purge xs C) \<subseteq> C \<union> bug_id ` set (fst (purge xs C))"
  by (induction xs C rule: purge.induct) auto

lemma purge_covers: "b \<in> set xs \<Longrightarrow> bug_id b \<in> C \<union> bug_id ` set (fst (purge xs C))"
  by (induction xs C rule: purge.induct) auto


lemma getBug_Inr:
  "fetch ids = Inr dataList \<Longrightarrow>
   getBug fetch st ids =
     (Inr (fst (purge dataList (checkedBugs st))),
      st\<lparr>requests := requests st @ [ids], checkedBugs := snd (purge dataList (checkedBugs st))\<rparr>)"
  by (simp add: getBug_def getBug_forEach_purge split_beta)

subsection \<open>Rewriting records\<close>

lemma splice_map: "splice k (map f xs) = map f (splice k xs)"
  by (simp add: splice_def take_map drop_map)

lemma getBug_forEach_map:
  assumes "\<And>b. bug_id (f b) = bug_id b"
  shows "getBug_forEach m k (map f xs) C =
           (map f (fst (getBug_forEach m k xs C)), snd (getBug_forEach m k xs C))"
  by (induction m k xs C rule: getBug_forEach.induct) (simp_all add: assms splice_map)

lemma getBug_relabel:
  assumes "\<And>b. bug_id (f b) = bug_id b"
  shows "getBug (relabel f fetch) st ids =
           (case getBug fetch st ids of
              (Inl e, st1) \<Rightarrow> (Inl e, st1)
            | (Inr infoArray, st1) \<Rightarrow> (Inr (map f infoArray), st1))"
proof (cases "fetch ids")
  case (Inl e)
  then show ?thesis by (simp add: getBug_def relabel_def)
next
  case (Inr dataList)
  then show ?thesis
    by (simp add: getBug_def relabel_def getBug_forEach_map[of f, OF assms] split_beta)
qed

lemma getAll_relabel:
  fixes f :: "bug \<Rightarrow> bug"
  assumes i: "\<And>b. bug_id (f b) = bug_id b" and d: "\<And>b. depends_on (f b) = depends_on b"
  shows "getAll n (relabel f fetch) st ids = getAll n fetch st ids"
    and "getDependencies n (relabel f fetch) st partial (map f cs) =
           getDependencies n fetch st partial cs"
proof (induction n fetch st ids and n fetch st partial cs rule: getAll_getDependencies.induct)
  case (3 n fetch st b bs)
  obtain out st1 where g: "getBug fetch st (b # bs) = (out, st1)" by (cases "getBug fetch st (b # bs)")
  show ?case
  proof (cases out)
    case (Inl e)
    with g show ?thesis by (simp add: getBug_relabel[of f, OF i])
  next
    case (Inr infoArray)
    have m: "map bug_id (map f infoArray) = map bug_id infoArray" by (simp add: i)
    from Inr g "3.IH"[of "Inr infoArray" st1 infoArray] show ?thesis
      by (simp add: getBug_relabel[of f, OF i] m del: map_map
               split: option.split sum.split prod.split)
  qed
next
  case (5 n fetch st partial c cs)
  show ?case
  proof (cases "getAll n fetch st (depends_on c)")
    case None
    with "5.IH"(1) show ?thesis by (simp add: d)
  next
    case (Some r)
    obtain out st1 where r: "r = (out, st1)" by (cases r)
    show ?thesis
    proof (cases out)
      case (Inl e)
      with Some r "5.IH"(1) show ?thesis by (simp add: d)
    next
      case (Inr depList)
      with Some r "5.IH"(1) "5.IH"(2)[of "(Inr depList, st1)" "Inr depList" st1 depList]
      show ?thesis by (simp add: d)
    qed
  qed
qed simp_all

subsection \<open>Settled calls\<close>

lemma getAll_Suc_cases:
  assumes "getAll (Suc n) fetch st (b # bs) = Some (out, st')"
  shows "(\<exists>e. getBug fetch st (b # bs) = (Inl e, st') \<and> out = Inl e) \<or>
         (\<exists>infoArray st1 e. getBug fetch st (b # bs) = (Inr infoArray, st1) \<and>
            getDependencies n fetch st1 [] infoArray = Some (Inl e, st') \<and> out = Inl e) \<or>
         (\<exists>infoArray st1 depends. getBug fetch st (b # bs) = (Inr infoArray, st1) \<and>
            getDependencies n fetch st1 [] infoArray = Some (Inr depends, st') \<and>
            out = Inr (map bug_id infoArray @ depends))"
  using assms by (auto split: prod.splits sum.splits option.splits)

lemma getDependencies_Cons_cases:
  assumes "getDependencies n fetch st partial (c # cs) = Some (out, st')"
  shows "(\<exists>e. getAll n fetch st (depends_on c) = Some (Inl e, st') \<and> out = Inl e) \<or>
         (\<exists>depList st1. getAll n fetch st (depends_on c) = Some (Inr depList, st1) \<and>
            getDependencies n fetch st1 (partial @ depList) cs = Some (out, st'))"
  using assms by (auto split: prod.splits sum.splits option.splits)


lemma getBug_log:
  assumes "getBug fetch st ids = (out, st1)"
  shows "requests st1 = requests st @ [ids] \<and> settled_log fetch [ids] out"
  using assms by (auto simp: getBug_def settled_log_def Let_def split: sum.splits prod.splits)

lemma settled_log_append:
  assumes "settled_log fetch new1 (Inr x)" "settled_log fetch new2 out"
  shows "settled_log fetch (new1 @ new2) out"
  using assms by (auto simp: settled_log_def butlast_append split: sum.splits)

lemma settled_log_Nil: "settled_log fetch [] (Inr x)"
  by (simp add: settled_log_def)

lemma settled_log_cong: "settled_log fetch new (Inr x) \<Longrightarrow> settled_log fetch new (Inr y)"
  by (simp add: settled_log_def)

lemma settled_log_Inl_cong: "settled_log fetch new (Inl e :: error + 'a) \<Longrightarrow> settled_log fetch new (Inl e :: error + 'b)"
  by (simp add: settled_log_def)

lemma getAll_getDependencies_log:
  "getAll n fetch st ids = Some (out, st') \<Longrightarrow>
     \<exists>new. requests st' = requests st @ new \<and> settled_log fetch new out"
  "getDependencies n fetch st partial cs = Some (out, st') \<Longrightarrow>
     \<exists>new. requests st' = requests st @ new \<and> settled_log fetch new out"
proof (induction n fetch st ids and n fetch st partial cs arbitrary: out st' and out st'
       rule: getAll_getDependencies.induct)
  case (1 n fetch st)
  then show ?case by (auto simp: settled_log_Nil)
next
  case (2 fetch st b bs)
  then show ?case by simp
next
  case (3 n fetch st b bs)
  from getAll_Suc_cases[OF "3.prems"] show ?case
  proof (elim disjE exE conjE)
    fix e assume "getBug fetch st (b # bs) = (Inl e, st')" "out = Inl e"
    then show ?thesis using getBug_log[of fetch st "b # bs" "Inl e" st']
      by (auto intro: settled_log_Inl_cong)
  next
    fix infoArray st1 e
    assume g: "getBug fetch st (b # bs) = (Inr infoArray, st1)"
      and d: "getDependencies n fetch st1 [] infoArray = Some (Inl e, st')" and o: "out = Inl e"
    from "3.IH"[OF g[symmetric] refl d] obtain new where
      "requests st' = requests st1 @ new" "settled_log fetch new (Inl e :: error + nat list)" by blast
    moreover from getBug_log[OF g] have "requests st1 = requests st @ [b # bs]"
      "settled_log fetch [b # bs] (Inr infoArray)" by auto
    ultimately have "requests st' = requests st @ ([b # bs] @ new)"
      "settled_log fetch ([b # bs] @ new) (Inl e :: error + nat list)"
      by (auto intro: settled_log_append simp del: append.simps)
    with o show ?thesis by blast
  next
    fix infoArray st1 depends
    assume g: "getBug fetch st (b # bs) = (Inr infoArray, st1)"
      and d: "getDependencies n fetch st1 [] infoArray = Some (Inr depends, st')"
      and o: "out = Inr (map bug_id infoArray @ depends)"
    from "3.IH"[OF g[symmetric] refl d] obtain new where
      "requests st' = requests st1 @ new" "settled_log fetch new (Inr depends :: error + nat list)" by blast
    moreover from getBug_log[OF g] have "requests st1 = requests st @ [b # bs]"
      "settled_log fetch [b # bs] (Inr infoArray)" by auto
    ultimately have "requests st' = requests st @ ([b # bs] @ new)"
      "settled_log fetch ([b # bs] @ new) (Inr depends :: error + nat list)"
      by (auto intro: settled_log_append simp del: append.simps)
    with o show ?thesis by (blast intro: settled_log_cong)
  qed
next
  case (4 n fetch st partial)
  then show ?case by (auto simp: settled_log_Nil intro: settled_log_cong)
next
  case (5 n fetch st partial c cs)
  from getDependencies_Cons_cases[OF "5.prems"] show ?case
  proof (elim disjE exE conjE)
    fix e assume "getAll n fetch st (depends_on c) = Some (Inl e, st')" "out = Inl e"
    then show ?thesis using "5.IH"(1) by blast
  next
    fix depList st1
    assume a: "getAll n fetch st (depends_on c) = Some (Inr depList, st1)"
      and d: "getDependencies n fetch st1 (partial @ depList) cs = Some (out, st')"
    from "5.IH"(1)[OF a] obtain new1 where n1: "requests st1 = requests st @ new1"
      "settled_log fetch new1 (Inr depList :: error + nat list)" by blast
    from "5.IH"(2)[OF a refl refl d] obtain new2 where n2: "requests st' = requests st1 @ new2"
      "settled_log fetch new2 out" by blast
    from n1 n2 show ?thesis by (auto intro: settled_log_append)
  qed
qed

subsection \<open>A request that fails\<close>




lemma getAll_Suc_rejected:
  "getBug fetch st (b # bs) = (Inl e, st1) \<Longrightarrow>
   getAll (Suc n) fetch st (b # bs) = Some (Inl e, st1)"
  by simp

lemma getAll_Suc_settled:
  "getBug fetch st (b # bs) = (Inr infoArray, st1) \<Longrightarrow>
   getDependencies n fetch st1 [] infoArray = Some (out2, st') \<Longrightarrow>
   getAll (Suc n) fetch st (b # bs) =
     Some (case out2 of Inl e \<Rightarrow> Inl e | Inr depends \<Rightarrow> Inr (map bug_id infoArray @ depends), st')"
  by (cases out2) simp_all


lemma getDependencies_Cons_rejected:
  "getAll n fetch st (depends_on c) = Some (Inl e, st1) \<Longrightarrow>
   getDependencies n fetch st partial (c # cs) = Some (Inl e, st1)"
  by simp

lemma getDependencies_Cons_resolved:
  "getAll n fetch st (depends_on c) = Some (Inr depList, st1) \<Longrightarrow>
   getDependencies n fetch st partial (c # cs) =
     getDependencies n fetch st1 (partial @ depList) cs"
  by simp


subsection \<open>Fuel\<close>

text \<open>More fuel never changes the outcome of a call that has settled.\<close>

lemma getAll_getDependencies_fuel:
  "getAll n fetch st ids = Some r \<Longrightarrow> getAll (Suc n) fetch st ids = Some r"
  "getDependencies n fetch st partial cs = Some r \<Longrightarrow>
     getDependencies (Suc n) fetch st partial cs = Some r"
proof (induction n fetch st ids and n fetch st partial cs arbitrary: r and r
       rule: getAll_getDependencies.induct)
  case (1 n fetch st)
  then show ?case by simp
next
  case (2 fetch st b bs)
  then show ?case by simp
next
  case (3 n fetch st b bs)
  obtain out st1 where gb: "getBug fetch st (b # bs) = (out, st1)"
    by (cases "getBug fetch st (b # bs)")
  show ?case
  proof (cases out)
    case (Inl e)
    with gb "3.prems" show ?thesis by simp
  next
    case (Inr infoArray)
    with gb "3.prems" obtain r1 where
      d: "getDependencies n fetch st1 [] infoArray = Some r1"
      by (cases "getDependencies n fetch st1 [] infoArray") auto
    from "3.IH"[OF _ _ d] gb Inr
    have "getDependencies (Suc n) fetch st1 [] infoArray = Some r1" by simp
    with d gb Inr "3.prems" show ?thesis by simp
  qed
next
  case (4 n fetch st partial)
  then show ?case by simp
next
  case (5 n fetch st partial c cs)
  from "5.prems" obtain out st1 where
    a: "getAll n fetch st (depends_on c) = Some (out, st1)"
    by (cases "getAll n fetch st (depends_on c)") auto
  from "5.IH"(1)[OF a] have a': "getAll (Suc n) fetch st (depends_on c) = Some (out, st1)" .
  show ?case
  proof (cases out)
    case (Inl e)
    with a "5.prems" have "r = (Inl e, st1)" by simp
    with a' Inl show ?thesis by simp
  next
    case (Inr depList)
    with a "5.prems" have d: "getDependencies n fetch st1 (partial @ depList) cs = Some r"
      by simp
    from "5.IH"(2)[OF _ _ _ d] a Inr
    have "getDependencies (Suc n) fetch st1 (partial @ depList) cs = Some r" by simp
    with a' Inr show ?thesis by simp
  qed
qed

subsection \<open>Closure of the result\<close>

lemma reachable_deps_subset:
  assumes "i \<in> reachable g roots" "g i = Some deps"
  shows "reachable g deps \<subseteq> reachable g roots"
proof
  fix j assume "j \<in> reachable g deps"
  then show "j \<in> reachable g roots"
  proof (induction rule: reachable.induct)
    case (root j deps')
    with assms show ?case by (blast intro: reachable.dep)
  next
    case (dep k deps' j deps'')
    then show ?case by (blast intro: reachable.dep)
  qed
qed

lemma closed_in_union:
  assumes "closed_in g S R1" "closed_in g S1 R2" "S1 \<subseteq> S \<union> R1"
  shows "closed_in g S (R1 \<union> R2)"
  using assms unfolding closed_in_def by blast

lemma getBug_answers:
  assumes a: "answers g fetch" and gb: "getBug fetch st ids = (Inr infoArray, st1)"
  shows "(\<forall>c\<in>set infoArray. bug_id c \<in> set ids \<and> g (bug_id c) = Some (depends_on c)) \<and>
         checkedBugs st1 \<subseteq> checkedBugs st \<union> bug_id ` set infoArray \<and>
         (\<forall>i\<in>set ids. i \<in> dom g \<longrightarrow> i \<in> checkedBugs st \<union> bug_id ` set infoArray)"
proof -
  from a obtain dataList where f: "fetch ids = Inr dataList"
    and r: "\<forall>b\<in>set dataList. bug_id b \<in> set ids \<and> g (bug_id b) = Some (depends_on b)"
    and k: "\<forall>i\<in>set ids. i \<in> dom g \<longrightarrow> i \<in> bug_id ` set dataList"
    unfolding answers_def by blast
  from gb getBug_Inr[of fetch ids dataList st, OF f] have info: "infoArray = fst (purge dataList (checkedBugs st))"
    and c1: "checkedBugs st1 = snd (purge dataList (checkedBugs st))" by auto
  have 1: "\<forall>c\<in>set infoArray. bug_id c \<in> set ids \<and> g (bug_id c) = Some (depends_on c)"
    using r purge_subset[of dataList "checkedBugs st"] info by blast
  have 2: "checkedBugs st1 \<subseteq> checkedBugs st \<union> bug_id ` set infoArray"
    using purge_checked_new[of dataList "checkedBugs st"] info c1 by simp
  have 3: "\<forall>i\<in>set ids. i \<in> dom g \<longrightarrow> i \<in> checkedBugs st \<union> bug_id ` set infoArray"
  proof (intro ballI impI)
    fix i assume "i \<in> set ids" "i \<in> dom g"
    with k obtain b where "b \<in> set dataList" "i = bug_id b" by blast
    with purge_covers[of b dataList "checkedBugs st"] info
    show "i \<in> checkedBugs st \<union> bug_id ` set infoArray" by simp
  qed
  from 1 2 3 show ?thesis by blast
qed


lemma getAll_getDependencies_closure:
  assumes a: "answers g fetch"
  shows "getAll n fetch st ids = Some (Inr res, st') \<Longrightarrow>
           set res \<subseteq> reachable g ids \<and>
           checkedBugs st' \<subseteq> checkedBugs st \<union> set res \<and>
           (\<forall>i\<in>set ids. i \<in> dom g \<longrightarrow> i \<in> checkedBugs st \<union> set res) \<and>
           closed_in g (checkedBugs st) (set res)"
    and "getDependencies n fetch st partial cs = Some (Inr res, st') \<Longrightarrow>
           \<exists>res0. res = partial @ res0 \<and>
             set res0 \<subseteq> (\<Union>c\<in>set cs. reachable g (depends_on c)) \<and>
             checkedBugs st' \<subseteq> checkedBugs st \<union> set res0 \<and>
             (\<forall>c\<in>set cs. \<forall>j\<in>set (depends_on c). j \<in> dom g \<longrightarrow> j \<in> checkedBugs st \<union> set res0) \<and>
             closed_in g (checkedBugs st) (set res0)"
  using a
proof (induction n fetch st ids and n fetch st partial cs arbitrary: res st' and res st'
       rule: getAll_getDependencies.induct)
  case (1 n fetch st)
  then show ?case by (simp add: closed_in_def)
next
  case (2 fetch st b bs)
  then show ?case by simp
next
  case (3 n fetch st b bs)
  from getAll_Suc_cases[OF "3.prems"(1)] obtain infoArray st1 depends where
    gb: "getBug fetch st (b # bs) = (Inr infoArray, st1)"
    and gd: "getDependencies n fetch st1 [] infoArray = Some (Inr depends, st')"
    and res: "res = map bug_id infoArray @ depends" by blast
  from getBug_answers[OF "3.prems"(2) gb] have
    i1: "\<forall>c\<in>set infoArray. bug_id c \<in> set (b # bs) \<and> g (bug_id c) = Some (depends_on c)"
    and i2: "checkedBugs st1 \<subseteq> checkedBugs st \<union> bug_id ` set infoArray"
    and i3: "\<forall>i\<in>set (b # bs). i \<in> dom g \<longrightarrow> i \<in> checkedBugs st \<union> bug_id ` set infoArray"
    by blast+
  from "3.IH"[OF gb[symmetric] refl gd "3.prems"(2)] have
    d1: "set depends \<subseteq> (\<Union>c\<in>set infoArray. reachable g (depends_on c))"
    and d2: "checkedBugs st' \<subseteq> checkedBugs st1 \<union> set depends"
    and d3: "\<forall>c\<in>set infoArray. \<forall>j\<in>set (depends_on c). j \<in> dom g \<longrightarrow>
               j \<in> checkedBugs st1 \<union> set depends"
    and d4: "closed_in g (checkedBugs st1) (set depends)" by auto
  have r0: "bug_id ` set infoArray \<subseteq> reachable g (b # bs)"
    using i1 by (blast intro: reachable.root)
  have r1: "set depends \<subseteq> reachable g (b # bs)"
  proof
    fix j assume "j \<in> set depends"
    with d1 obtain c where c: "c \<in> set infoArray" "j \<in> reachable g (depends_on c)" by blast
    with i1 r0 have "bug_id c \<in> reachable g (b # bs)" "g (bug_id c) = Some (depends_on c)"
      by blast+
    from reachable_deps_subset[OF this] c(2) show "j \<in> reachable g (b # bs)" by blast
  qed
  have c0: "closed_in g (checkedBugs st) (bug_id ` set infoArray \<union> set depends)"
    unfolding closed_in_def
  proof (intro ballI allI impI)
    fix i deps j
    assume i: "i \<in> bug_id ` set infoArray \<union> set depends" and gi: "g i = Some deps"
      and j: "j \<in> set deps" "j \<in> dom g"
    from i show "j \<in> checkedBugs st \<union> (bug_id ` set infoArray \<union> set depends)"
    proof
      assume "i \<in> bug_id ` set infoArray"
      then obtain c where c: "c \<in> set infoArray" "i = bug_id c" by blast
      with i1 gi have "deps = depends_on c" by auto
      with d3 c j have "j \<in> checkedBugs st1 \<union> set depends" by blast
      with i2 show ?thesis by blast
    next
      assume "i \<in> set depends"
      with d4 gi j have "j \<in> checkedBugs st1 \<union> set depends" unfolding closed_in_def by blast
      with i2 show ?thesis by blast
    qed
  qed
  have s: "set res = bug_id ` set infoArray \<union> set depends" using res by auto
  show ?case unfolding s using r0 r1 i2 d2 i3 c0 by blast
next
  case (4 n fetch st partial)
  then show ?case by (simp add: closed_in_def)
next
  case (5 n fetch st partial c cs)
  from getDependencies_Cons_cases[OF "5.prems"(1)] obtain depList st1 where
    ga: "getAll n fetch st (depends_on c) = Some (Inr depList, st1)"
    and gd: "getDependencies n fetch st1 (partial @ depList) cs = Some (Inr res, st')" by blast
  from "5.IH"(1)[OF ga "5.prems"(2)] have
    a1: "set depList \<subseteq> reachable g (depends_on c)"
    and a2: "checkedBugs st1 \<subseteq> checkedBugs st \<union> set depList"
    and a3: "\<forall>i\<in>set (depends_on c). i \<in> dom g \<longrightarrow> i \<in> checkedBugs st \<union> set depList"
    and a4: "closed_in g (checkedBugs st) (set depList)" by blast+
  from "5.IH"(2)[OF ga refl refl gd "5.prems"(2)] obtain res1 where
    e0: "res = (partial @ depList) @ res1"
    and e1: "set res1 \<subseteq> (\<Union>c\<in>set cs. reachable g (depends_on c))"
    and e2: "checkedBugs st' \<subseteq> checkedBugs st1 \<union> set res1"
    and e3: "\<forall>c\<in>set cs. \<forall>j\<in>set (depends_on c). j \<in> dom g \<longrightarrow> j \<in> checkedBugs st1 \<union> set res1"
    and e4: "closed_in g (checkedBugs st1) (set res1)" by blast
  have c0: "closed_in g (checkedBugs st) (set depList \<union> set res1)"
    using closed_in_union[OF a4 e4 a2] .
  have "res = partial @ (depList @ res1)" using e0 by simp
  moreover have "set (depList @ res1) \<subseteq> (\<Union>c\<in>set (c # cs). reachable g (depends_on c))"
    using a1 e1 by auto
  moreover have "checkedBugs st' \<subseteq> checkedBugs st \<union> set (depList @ res1)"
    using a2 e2 by auto
  moreover have "\<forall>c\<in>set (c # cs). \<forall>j\<in>set (depends_on c). j \<in> dom g \<longrightarrow>
                   j \<in> checkedBugs st \<union> set (depList @ res1)"
  proof (intro ballI impI)
    fix c' j assume c': "c' \<in> set (c # cs)" and j: "j \<in> set (depends_on c')" "j \<in> dom g"
    show "j \<in> checkedBugs st \<union> set (depList @ res1)"
    proof (cases "c' = c")
      case True
      with a3 j show ?thesis by auto
    next
      case False
      with c' have "c' \<in> set cs" by simp
      with e3 j have "j \<in> checkedBugs st1 \<union> set res1" by blast
      with a2 show ?thesis by auto
    qed
  qed
  moreover have "closed_in g (checkedBugs st) (set (depList @ res1))" using c0 by simp
  ultimately show ?case by blast
qed

subsection \<open>The tracker over a list of bugs\<close>

lemma graph_of_member:
  assumes "distinct (map bug_id db)" "b \<in> set db"
  shows "graph_of db (bug_id b) = Some (depends_on b)"
proof -
  have "distinct (map fst (map (\<lambda>b. (bug_id b, depends_on b)) db))"
    using assms(1) by (simp add: comp_def)
  moreover have "(bug_id b, depends_on b) \<in> set (map (\<lambda>b. (bug_id b, depends_on b)) db)"
    using assms(2) by auto
  ultimately show ?thesis unfolding graph_of_def by (rule map_of_is_SomeI)
qed

lemma graph_of_dom: "i \<in> dom (graph_of db) \<Longrightarrow> i \<in> bug_id ` set db"
  unfolding graph_of_def by (auto simp: dom_map_of_conv_image_fst)

lemma serve_answers:
  assumes "distinct (map bug_id db)"
  shows "answers (graph_of db) (serve db)"
  unfolding answers_def
proof (intro allI exI conjI ballI impI)
  fix ids
  show "serve db ids = Inr (filter (\<lambda>b. bug_id b \<in> set ids) db)" by (simp add: serve_def)
next
  fix ids b assume "b \<in> set (filter (\<lambda>b. bug_id b \<in> set ids) db)"
  then show "bug_id b \<in> set ids" by simp
next
  fix ids b assume "b \<in> set (filter (\<lambda>b. bug_id b \<in> set ids) db)"
  then show "graph_of db (bug_id b) = Some (depends_on b)"
    using graph_of_member[OF assms] by simp
next
  fix ids i assume "i \<in> set ids" "i \<in> dom (graph_of db)"
  then show "i \<in> bug_id ` set (filter (\<lambda>b. bug_id b \<in> set ids) db)"
    using graph_of_dom[of i db] by auto
qed

text \<open>
  On an empty table and a network that answers for the graph, a call that resolves
  returns exactly the identifiers reachable from the roots.
\<close>

lemma getAll_reachable:
  assumes "answers g fetch" "checkedBugs st = {}"
    and "getAll n fetch st roots = Some (Inr res, st')"
  shows "set res = reachable g roots"
proof
  from getAll_getDependencies_closure(1)[OF assms(1) assms(3)] assms(2)
  have sub: "set res \<subseteq> reachable g roots"
    and roots: "\<forall>i\<in>set roots. i \<in> dom g \<longrightarrow> i \<in> set res"
    and cl: "closed_in g {} (set res)" by auto
  show "set res \<subseteq> reachable g roots" by (rule sub)
  show "reachable g roots \<subseteq> set res"
  proof
    fix j assume "j \<in> reachable g roots"
    then show "j \<in> set res"
    proof (induction rule: reachable.induct)
      case (root i deps)
      with roots show ?case by blast
    next
      case (dep i deps j deps')
      with cl show ?case unfolding closed_in_def by blast
    qed
  qed
qed

lemma getAll_reachable_example:
  "answers (graph_of [mk_bug 1 [2, 3], mk_bug 2 [4], mk_bug 3 [4], mk_bug 4 [], mk_bug 5 [1]])
     (serve [mk_bug 1 [2, 3], mk_bug 2 [4], mk_bug 3 [4], mk_bug 4 [], mk_bug 5 [1]]) \<and>
   checkedBugs fresh = {} \<and>
   getAll (Suc 2) (serve [mk_bug 1 [2, 3], mk_bug 2 [4], mk_bug 3 [4], mk_bug 4 [], mk_bug 5 [1]])
       fresh [1]
     = Some (Inr [1, 2, 3, 4],
             \<lparr>checkedBugs = {1, 2, 3, 4}, requests = [[1], [2, 3], [4], [4]]\<rparr>) \<and>
   reachable (graph_of [mk_bug 1 [2, 3], mk_bug 2 [4], mk_bug 3 [4], mk_bug 4 [], mk_bug 5 [1]])
       [1] = {1, 2, 3, 4}"
proof -
  let ?db = "[mk_bug 1 [2, 3], mk_bug 2 [4], mk_bug 3 [4], mk_bug 4 [], mk_bug 5 [1]]"
  have a: "answers (graph_of ?db) (serve ?db)"
    by (rule serve_answers) (simp add: mk_bug_def)
  have f: "checkedBugs fresh = {}" by (simp add: fresh_def)
  have h: "getAll (Suc 2) (serve ?db) fresh [1]
             = Some (Inr [1, 2, 3, 4],
                     \<lparr>checkedBugs = {1, 2, 3, 4}, requests = [[1], [2, 3], [4], [4]]\<rparr>)"
    by code_simp
  from getAll_reachable[OF a f h] have "reachable (graph_of ?db) [1] = {1, 2, 3, 4}" by auto
  with a f h show ?thesis by blast
qed

subsection \<open>Graphs without cycles\<close>

text \<open>
  On a graph with a rank the call settles, with fuel above the cost of every root, and so
  returns exactly the reachable identifiers.
\<close>

lemma getAll_getDependencies_settle:
  assumes a: "answers g fetch" and r: "ranked g rank"
  shows "(\<forall>i\<in>set ids. cost g rank i < n) \<Longrightarrow> \<exists>res. getAll n fetch st ids = Some res"
    and "(\<forall>c\<in>set cs. \<forall>j\<in>set (depends_on c). cost g rank j < n) \<Longrightarrow>
           \<exists>res. getDependencies n fetch st partial cs = Some res"
  using a
proof (induction n fetch st ids and n fetch st partial cs
       rule: getAll_getDependencies.induct)
  case (1 n fetch st)
  then show ?case by simp
next
  case (2 fetch st b bs)
  from "2.prems"(1) have "cost g rank b < 0" by (rule bspec) simp
  then show ?case by simp
next
  case (3 n fetch st b bs)
  obtain out st1 where gb: "getBug fetch st (b # bs) = (out, st1)"
    by (cases "getBug fetch st (b # bs)")
  show ?case
  proof (cases out)
    case (Inl e)
    with gb getAll_Suc_rejected[of fetch st b bs e st1 n] show ?thesis by blast
  next
    case (Inr infoArray)
    with gb have gb': "getBug fetch st (b # bs) = (Inr infoArray, st1)" by simp
    from getBug_answers[OF "3.prems"(2) gb'] have
      i1: "\<forall>c\<in>set infoArray. bug_id c \<in> set (b # bs) \<and> g (bug_id c) = Some (depends_on c)"
      by blast
    have "\<forall>c\<in>set infoArray. \<forall>j\<in>set (depends_on c). cost g rank j < n"
    proof (intro ballI)
      fix c j assume c: "c \<in> set infoArray" and j: "j \<in> set (depends_on c)"
      from i1 c have k: "bug_id c \<in> set (b # bs)" "g (bug_id c) = Some (depends_on c)"
        by blast+
      from k(2) have "bug_id c \<in> dom g" by blast
      moreover from "3.prems"(1) k(1) have "cost g rank (bug_id c) < Suc n" by blast
      ultimately have b: "rank (bug_id c) < n" by (simp add: cost_def)
      show "cost g rank j < n"
      proof (cases "j \<in> dom g")
        case True
        with r k(2) j have "rank j < rank (bug_id c)" unfolding ranked_def by blast
        with b True show ?thesis by (simp add: cost_def)
      next
        case False
        with b show ?thesis by (simp add: cost_def)
      qed
    qed
    from "3.IH"[OF gb'[symmetric] refl this "3.prems"(2)] obtain out2 st2 where
      "getDependencies n fetch st1 [] infoArray = Some (out2, st2)" by auto
    from getAll_Suc_settled[OF gb' this] show ?thesis by blast
  qed
next
  case (4 n fetch st partial)
  then show ?case by simp
next
  case (5 n fetch st partial c cs)
  from "5.prems" have "\<forall>i\<in>set (depends_on c). cost g rank i < n" by simp
  from "5.IH"(1)[OF this "5.prems"(2)] obtain out st1 where
    ga: "getAll n fetch st (depends_on c) = Some (out, st1)" by auto
  show ?case
  proof (cases out)
    case (Inl e)
    with ga getDependencies_Cons_rejected[of n fetch st c e st1 partial cs] show ?thesis by blast
  next
    case (Inr depList)
    with ga have ga': "getAll n fetch st (depends_on c) = Some (Inr depList, st1)" by simp
    from "5.prems" have "\<forall>c\<in>set cs. \<forall>j\<in>set (depends_on c). cost g rank j < n" by simp
    from "5.IH"(2)[OF ga' refl refl this "5.prems"(2)]
      getDependencies_Cons_resolved[OF ga', of partial cs]
    show ?thesis by simp
  qed
qed

lemma answers_never_rejected:
  assumes "answers g fetch" "getAll n fetch st ids = Some (out, st')"
  shows "\<exists>res. out = Inr res"
proof (cases out)
  case (Inl e)
  from getAll_getDependencies_log(1)[OF assms(2)] obtain new where
    "settled_log fetch new out" by blast
  with Inl have "fetch (last new) = Inl e" by (simp add: settled_log_def)
  with assms(1) show ?thesis unfolding answers_def by (metis Inl_Inr_False)
next
  case (Inr res)
  then show ?thesis by blast
qed

lemma getAll_total_on_ranked:
  assumes a: "answers g fetch" and r: "ranked g rank" and e: "checkedBugs st = {}"
  shows "\<exists>n res st'. getAll n fetch st roots = Some (Inr res, st') \<and>
           set res = reachable g roots"
proof -
  define n where "n = Suc (sum_list (map (cost g rank) roots))"
  have "\<forall>i\<in>set roots. cost g rank i < n"
    unfolding n_def by (auto simp: less_Suc_eq_le member_le_sum_list)
  from getAll_getDependencies_settle(1)[OF a r this, of st] obtain settled where
    "getAll n fetch st roots = Some settled" by blast
  then obtain out st' where s: "getAll n fetch st roots = Some (out, st')"
    by (cases settled) simp
  from answers_never_rejected[OF a s] obtain res where "out = Inr res" by blast
  with s have s': "getAll n fetch st roots = Some (Inr res, st')" by simp
  from getAll_reachable[OF a e s'] s' show ?thesis by blast
qed

subsection \<open>Reachability in the cycle of three bugs\<close>

lemma reachable_known: "i \<in> reachable g roots \<Longrightarrow> i \<in> dom g"
  by (induction rule: reachable.induct) auto

lemma reachable_cycle:
  "reachable (graph_of [mk_bug 1 [2], mk_bug 2 [1, 3], mk_bug 3 [1, 2]]) [1] = {1, 2, 3}"
proof -
  let ?g = "graph_of [mk_bug 1 [2], mk_bug 2 [1, 3], mk_bug 3 [1, 2]]"
  have g1: "?g 1 = Some [2]" and g2: "?g 2 = Some [1, 3]" and g3: "?g 3 = Some [1, 2]"
    by (simp_all add: graph_of_def mk_bug_def)
  have d: "dom ?g = {1, 2, 3}"
    by (auto simp: graph_of_def mk_bug_def split: if_splits)
  have r1: "1 \<in> reachable ?g [1]" using g1 by (auto intro: reachable.root)
  have r2: "2 \<in> reachable ?g [1]" using reachable.dep[OF r1 g1 _ g2] by simp
  have r3: "3 \<in> reachable ?g [1]" using reachable.dep[OF r2 g2 _ g3] by simp
  show ?thesis
  proof
    show "reachable ?g [1] \<subseteq> {1, 2, 3}" using reachable_known[of _ ?g "[1]"] d by blast
    show "{1, 2, 3} \<subseteq> reachable ?g [1]" using r1 r2 r3 by simp
  qed
qed

subsection \<open>A traversal that never settles\<close>

lemma getBug_loop_13:
  assumes "checkedBugs st = {1, 2}"
  shows "getBug (serve [mk_bug 1 [2], mk_bug 2 [1, 3], mk_bug 3 [1, 2]]) st [1, 3] =
           (Inr [mk_bug 3 [1, 2]], st\<lparr>requests := requests st @ [[1, 3]], checkedBugs := {1, 2}\<rparr>)"
  using assms by (simp add: getBug_def serve_def mk_bug_def splice_def numeral_2_eq_2)

lemma getBug_loop_12:
  assumes "checkedBugs st = {1, 2}"
  shows "getBug (serve [mk_bug 1 [2], mk_bug 2 [1, 3], mk_bug 3 [1, 2]]) st [1, 2] =
           (Inr [mk_bug 2 [1, 3]], st\<lparr>requests := requests st @ [[1, 2]], checkedBugs := {1, 2}\<rparr>)"
  using assms by (simp add: getBug_def serve_def mk_bug_def splice_def numeral_2_eq_2)

lemma getAll_loop:
  "checkedBugs st = {1, 2} \<Longrightarrow>
   getAll n (serve [mk_bug 1 [2], mk_bug 2 [1, 3], mk_bug 3 [1, 2]]) st [1, 3] = None \<and>
   getAll n (serve [mk_bug 1 [2], mk_bug 2 [1, 3], mk_bug 3 [1, 2]]) st [1, 2] = None"
proof (induction n arbitrary: st)
  case 0
  then show ?case by simp
next
  case (Suc n)
  let ?st13 = "st\<lparr>requests := requests st @ [[1, 3]], checkedBugs := {1, 2}\<rparr>"
  let ?st12 = "st\<lparr>requests := requests st @ [[1, 2]], checkedBugs := {1, 2}\<rparr>"
  have "checkedBugs ?st13 = {1, 2}" "checkedBugs ?st12 = {1, 2}" by simp_all
  with Suc.IH[of ?st13] Suc.IH[of ?st12] getBug_loop_13[OF Suc.prems] getBug_loop_12[OF Suc.prems]
  show ?case by (simp add: mk_bug_def)
qed

lemma getAll_cycle_None:
  "getAll n (serve [mk_bug 1 [2], mk_bug 2 [1, 3], mk_bug 3 [1, 2]]) fresh [1] = None"
proof (cases n)
  case 0
  then show ?thesis by simp
next
  case (Suc m)
  note n = Suc
  let ?db = "[mk_bug 1 [2], mk_bug 2 [1, 3], mk_bug 3 [1, 2]]"
  let ?st1 = "\<lparr>checkedBugs = {1}, requests = [[1]]\<rparr>"
  let ?st2 = "\<lparr>checkedBugs = {1, 2}, requests = [[1], [2]]\<rparr>"
  have g1: "getBug (serve ?db) fresh [1] = (Inr [mk_bug 1 [2]], ?st1)"
    by (simp add: getBug_def serve_def mk_bug_def fresh_def)
  have g2: "getBug (serve ?db) ?st1 [2] = (Inr [mk_bug 2 [1, 3]], ?st2)"
    by (auto simp: getBug_def serve_def mk_bug_def)
  have inner: "getAll m (serve ?db) ?st1 [2] = None"
  proof (cases m)
    case 0
    then show ?thesis by simp
  next
    case (Suc k)
    have "getAll k (serve ?db) ?st2 [1, 3] = None" using getAll_loop[of ?st2 k] by simp
    with Suc g2 show ?thesis by (simp add: mk_bug_def)
  qed
  with n g1 show ?thesis by (simp add: mk_bug_def)
qed

lemma getDependencies_order:
  "getDependencies n fetch st partial cs = Some (Inr res, st') \<Longrightarrow>
   \<exists>subs. length subs = length cs \<and> res = partial @ concat subs \<and>
     (\<forall>k<length cs. \<exists>sa sb.
        getAll n fetch sa (depends_on (cs ! k)) = Some (Inr (subs ! k), sb))"
proof (induction cs arbitrary: st partial)
  case Nil
  then show ?case by simp
next
  case (Cons c cs)
  from getDependencies_Cons_cases[OF Cons.prems] obtain depList st1 where
    ga: "getAll n fetch st (depends_on c) = Some (Inr depList, st1)"
    and gd: "getDependencies n fetch st1 (partial @ depList) cs = Some (Inr res, st')" by blast
  from Cons.IH[OF gd] obtain subs where s: "length subs = length cs"
    "res = (partial @ depList) @ concat subs"
    "\<forall>k<length cs. \<exists>sa sb. getAll n fetch sa (depends_on (cs ! k)) = Some (Inr (subs ! k), sb)"
    by blast
  have "\<forall>k<length (c # cs). \<exists>sa sb.
          getAll n fetch sa (depends_on ((c # cs) ! k)) = Some (Inr ((depList # subs) ! k), sb)"
  proof (intro allI impI)
    fix k assume "k < length (c # cs)"
    then show "\<exists>sa sb. getAll n fetch sa (depends_on ((c # cs) ! k))
                          = Some (Inr ((depList # subs) ! k), sb)"
      using ga s(3) by (cases k) auto
  qed
  moreover have "length (depList # subs) = length (c # cs)" using s(1) by simp
  moreover have "res = partial @ concat (depList # subs)" using s(2) by simp
  ultimately show ?case by blast
qed

lemma getAll_chain:
  assumes "a \<noteq> b"
  shows "getAll (Suc (Suc 0)) (serve [mk_bug a [b], mk_bug b []]) fresh [a] =
           Some (Inr [a, b], \<lparr>checkedBugs = {a, b}, requests = [[a], [b]]\<rparr>)"
  using assms by (auto simp: getBug_def serve_def mk_bug_def fresh_def splice_def)

section \<open>Properties\<close>

subsection \<open>Empty input\<close>

text \<open>
  C8. \<open>getAll([])\<close> resolves with the empty list at once: whatever the fuel, the network
  and the module state, the result is \<open>[]\<close> and the state, with its log of requests, is
  the one the call started from, so no request was sent.
\<close>

theorem getAll_empty_roots:
  "getAll n fetch st [] = Some (Inr [], st)"
  by simp

subsection \<open>isMeta on absent data\<close>

text \<open>
  C10. \<open>isMeta\<close> answers \<open>false\<close>, and does not throw, for a \<open>null\<close> or \<open>undefined\<close> bug,
  for a bug without a summary and for a bug whose summary is the empty string.
\<close>

theorem isMeta_absent:
  "isMeta None = False \<and>
   isMeta (Some (b\<lparr>summary := None\<rparr>)) = False \<and>
   isMeta (Some (b\<lparr>summary := Some []\<rparr>)) = False"
  by (simp add: isMeta_def)

subsection \<open>The table outlives the call\<close>

text \<open>
  C3. Two successive calls \<open>getAll([1])\<close> in the same process, on a tracker that holds the
  single bug 1: the first resolves with \<open>[1]\<close>; the second starts from the state the first
  one left, finds bug 1 in \<open>checkedBugs\<close> and resolves with \<open>[]\<close>.
\<close>

theorem getAll_second_call_differs:
  "getAll 1 (serve [mk_bug 1 []]) fresh [1]
     = Some (Inr [1], \<lparr>checkedBugs = {1}, requests = [[1]]\<rparr>) \<and>
   getAll 1 (serve [mk_bug 1 []]) \<lparr>checkedBugs = {1}, requests = [[1]]\<rparr> [1]
     = Some (Inr [], \<lparr>checkedBugs = {1}, requests = [[1], [1]]\<rparr>)"
  by code_simp

subsection \<open>Repeated requests\<close>

text \<open>
  C1. A diamond: bug 1 depends on 2 and 3, and both depend on 4. The call \<open>getAll([1])\<close>
  on a fresh table sends the batches \<open>[1]\<close>, \<open>[2, 3]\<close>, \<open>[4]\<close> and \<open>[4]\<close> again: the table
  is consulted only after the response has arrived, so bug 4 is requested twice.
\<close>

theorem getAll_diamond_requests_twice:
  "getAll 3 (serve [mk_bug 1 [2, 3], mk_bug 2 [4], mk_bug 3 [4], mk_bug 4 []]) fresh [1]
     = Some (Inr [1, 2, 3, 4],
             \<lparr>checkedBugs = {1, 2, 3, 4}, requests = [[1], [2, 3], [4], [4]]\<rparr>) \<and>
   count_list (concat [[1], [2, 3], [4], [4 :: nat]]) 4 = 2"
  by code_simp

subsection \<open>Duplicates in the result\<close>

text \<open>
  C2. Bug 1 depends on 2 and 4, bug 2 on 3, bug 4 on 2 and 3. The response to the batch
  \<open>[2, 3]\<close> holds two bugs that are both in the table: \<open>forEach\<close> splices bug 2 out at
  position 0, bug 3 moves to position 0, and position 1 no longer exists, so bug 3 stays
  in the purged list. The result of \<open>getAll([1])\<close> names bug 3 twice.
\<close>

theorem getAll_result_with_duplicate:
  "getAll 3 (serve [mk_bug 1 [2, 4], mk_bug 2 [3], mk_bug 3 [], mk_bug 4 [2, 3]]) fresh [1]
     = Some (Inr [1, 2, 4, 3, 3],
             \<lparr>checkedBugs = {1, 2, 3, 4}, requests = [[1], [2, 4], [3], [2, 3]]\<rparr>) \<and>
   \<not> distinct [1, 2, 4, 3, 3 :: nat]"
  by code_simp

subsection \<open>Meta bugs\<close>

text \<open>
  C9, as the claim states it, fails on the older \<open>getAll\<close> of \<open>src/getAll.js\<close>, which
  guards \<open>list.push(bug)\<close> with \<open>if (!isMeta(bug))\<close>. Called with the string \<open>"1"\<close> on a
  network whose body is the bug itself, it requests the bug and returns the empty list
  when the summary is \<open>[meta] tracking\<close>, and the list with the bug when the summary is
  \<open>plain\<close>.
\<close>

theorem getAll_one_drops_meta:
  "getAll_one (Suc 0)
       (answer_with \<lparr>top_summary = Some ''[meta] tracking'', top_depends_on = Some []\<rparr>)
       fresh (Text 1)
     = Some (Inr [], \<lparr>checkedBugs = {1}, requests = [[1]]\<rparr>) \<and>
   getAll_one (Suc 0)
       (answer_with \<lparr>top_summary = Some ''plain'', top_depends_on = Some []\<rparr>)
       fresh (Text 1)
     = Some (Inr [\<lparr>top_summary = Some ''plain'', top_depends_on = Some []\<rparr>],
             \<lparr>checkedBugs = {1}, requests = [[1]]\<rparr>)"
  by code_simp

text \<open>
  On the body that the tracker sends, which has no summary of its own, and on a number
  as argument, the older \<open>getAll\<close> is rejected with a \<open>TypeError\<close> whatever the bug is.
\<close>

lemma getAll_one_type_errors:
  "getAll_one (Suc 0) (answer_with \<lparr>top_summary = None, top_depends_on = None\<rparr>)
       fresh (Text 1)
     = Some (Inl TypeError, \<lparr>checkedBugs = {1}, requests = [[1]]\<rparr>) \<and>
   getAll_one (Suc 0) (answer_with \<lparr>top_summary = Some ''plain'', top_depends_on = Some []\<rparr>)
       fresh (Number 1)
     = Some (Inl TypeError, \<lparr>checkedBugs = {}, requests = [[1]]\<rparr>)"
  by code_simp

text \<open>
  C9, amended to the batch traversal, \<open>getAll\<close> of \<open>src/everything.js\<close> and \<open>getAll2\<close> of
  \<open>src/getAll.js\<close>. It never looks at a summary: if the tracker rewrote the summary of
  every bug in any way, turning bugs into meta bugs or meta bugs into ordinary ones,
  \<open>getAll\<close> would send the same requests and return the same result. \<open>isMeta\<close> is not part
  of it; a bug whose summary carries the meta marker is fetched, followed and returned
  like any other. So bug 2 below, which \<open>isMeta\<close> recognises, is requested, is in the
  result, and its dependency 3 is requested and returned after it.
\<close>

theorem getAll_ignores_summary:
  "getAll n (relabel (\<lambda>b. b\<lparr>summary := g b\<rparr>) fetch) st ids = getAll n fetch st ids \<and>
   isMeta (Some (mk_bug 2 [3]\<lparr>summary := Some ''[meta] tracking''\<rparr>)) \<and>
   getAll (Suc 2)
       (serve [mk_bug 1 [2], mk_bug 2 [3]\<lparr>summary := Some ''[meta] tracking''\<rparr>, mk_bug 3 []])
       fresh [1]
     = Some (Inr [1, 2, 3], \<lparr>checkedBugs = {1, 2, 3}, requests = [[1], [2], [3]]\<rparr>)"
proof (intro conjI)
  show "getAll n (relabel (\<lambda>b. b\<lparr>summary := g b\<rparr>) fetch) st ids = getAll n fetch st ids"
    by (rule getAll_relabel(1)) simp_all
  show "isMeta (Some (mk_bug 2 [3]\<lparr>summary := Some ''[meta] tracking''\<rparr>))"
    by code_simp
  show "getAll (Suc 2)
       (serve [mk_bug 1 [2], mk_bug 2 [3]\<lparr>summary := Some ''[meta] tracking''\<rparr>, mk_bug 3 []])
       fresh [1]
     = Some (Inr [1, 2, 3], \<lparr>checkedBugs = {1, 2, 3}, requests = [[1], [2], [3]]\<rparr>)"
    by code_simp
qed

subsection \<open>Failing requests\<close>



text \<open>
  The run of the witness in full: the request for \<open>[2]\<close> fails in the second layer,
  after the first layer has delivered bug 1.
\<close>

lemma getAll_middle_layer_fails:
  "getAll (Suc 2) (fails_at [2] NetworkError (serve [mk_bug 1 [2], mk_bug 2 [3], mk_bug 3 []]))
       fresh [1]
     = Some (Inl NetworkError, \<lparr>checkedBugs = {1}, requests = [[1], [2]]\<rparr>)"
  by code_simp

subsection \<open>Completeness\<close>

text \<open>
  C5. Bug 1 depends on 2, bug 2 on 1 and 3, bug 3 on 1 and 2, and the table is empty. The
  identifiers reachable from the root 1 are 1, 2 and 3, but the call \<open>getAll([1])\<close> never
  delivers a result that could contain them: whatever the fuel, it does not settle. The
  tracker \<open>serve\<close> answers for the graph by lemma \<open>serve_answers\<close>. The cause is the
  splice inside \<open>forEach\<close>; on every graph with a rank the call settles and returns
  exactly the reachable identifiers (lemma \<open>getAll_total_on_ranked\<close>), and so does every
  call that resolves (lemma \<open>getAll_reachable\<close>).
\<close>

theorem getAll_cycle_no_result:
  "reachable (graph_of [mk_bug 1 [2], mk_bug 2 [1, 3], mk_bug 3 [1, 2]]) [1] = {1, 2, 3} \<and>
   checkedBugs fresh = {} \<and>
   (\<forall>n. getAll n (serve [mk_bug 1 [2], mk_bug 2 [1, 3], mk_bug 3 [1, 2]]) fresh [1] = None)"
  using reachable_cycle getAll_cycle_None by (simp add: fresh_def)


subsection \<open>Termination\<close>

text \<open>
  C4. Bug 1 depends on 2, bug 2 on 1 and 3, bug 3 on 1 and 2. The call \<open>getAll([1])\<close> on
  a fresh table never settles: whatever the fuel, the model runs out of it. After bugs 1
  and 2 are in the table, the response to \<open>[1, 3]\<close> loses bug 1 by the splice, which
  makes \<open>forEach\<close> skip bug 3, so bug 3 is kept but never entered in the table; its
  dependencies \<open>[1, 2]\<close> are requested, bug 2 is kept in the same way, and its
  dependencies \<open>[1, 3]\<close> are requested again, for ever.
\<close>

theorem getAll_cycle_never_settles:
  "getAll n (serve [mk_bug 1 [2], mk_bug 2 [1, 3], mk_bug 3 [1, 2]]) fresh [1] = None"
  by (rule getAll_cycle_None)

text \<open>
  The cycle of two bugs named in the claim does settle: bug 1 depends on 2 and bug 2 on
  1, and the result names each of them once.
\<close>

lemma getAll_two_cycle:
  "getAll (Suc 2) (serve [mk_bug 1 [2], mk_bug 2 [1]]) fresh [1]
     = Some (Inr [1, 2], \<lparr>checkedBugs = {1, 2}, requests = [[1], [2], [1]]\<rparr>)"
  by code_simp

subsection \<open>Order of the result\<close>

text \<open>
  C6, as the claim states it, fails. Roots 1 and 2; bug 1 depends on 3, bug 2 on 4, bug 3
  on 5. Layer by layer the order is \<open>[1, 2, 3, 4, 5]\<close>, which is what the traversal of
  the specification returns. \<open>getAll\<close> returns \<open>[1, 2, 3, 5, 4]\<close>: \<open>getDependencies\<close>
  finishes the whole traversal under bug 1 before it turns to the dependencies of bug 2.
\<close>

theorem getAll_not_by_layer:
  "getAll (Suc 2) (serve [mk_bug 1 [3], mk_bug 2 [4], mk_bug 3 [5], mk_bug 4 [], mk_bug 5 []])
       fresh [1, 2]
     = Some (Inr [1, 2, 3, 5, 4],
             \<lparr>checkedBugs = {1, 2, 3, 4, 5}, requests = [[1, 2], [3], [5], [4]]\<rparr>) \<and>
   spec_collect (Suc 2)
       (serve [mk_bug 1 [3], mk_bug 2 [4], mk_bug 3 [5], mk_bug 4 [], mk_bug 5 []]) {} [1, 2]
     = Some (Inr [1, 2, 3, 4, 5]) \<and>
   [1, 2, 3, 5, 4] \<noteq> [1, 2, 3, 4, 5 :: nat]"
  by code_simp

text \<open>
  C6, amended. A resolved call returns the identifiers of the purged response to its own
  batch first, in the order of the response, and then, for each of these records in turn,
  the whole result of the traversal of that record's dependency list. For the root 5000
  that depends on 5001, which depends on nothing, the requests are \<open>[5000]\<close> and then
  \<open>[5001]\<close>, and the result is \<open>[5000, 5001]\<close>.
\<close>

theorem getAll_order:
  "(getAll (Suc n) fetch st (i # ids) = Some (Inr res, st') \<longrightarrow>
      (\<exists>infoArray st1 subs.
         getBug fetch st (i # ids) = (Inr infoArray, st1) \<and>
         length subs = length infoArray \<and>
         res = map bug_id infoArray @ concat subs \<and>
         (\<forall>k<length infoArray. \<exists>sa sb.
            getAll n fetch sa (depends_on (infoArray ! k)) = Some (Inr (subs ! k), sb)))) \<and>
   getAll (Suc (Suc 0)) (serve [mk_bug 5000 [5001], mk_bug 5001 []]) fresh [5000]
     = Some (Inr [5000, 5001], \<lparr>checkedBugs = {5000, 5001}, requests = [[5000], [5001]]\<rparr>)"
proof (intro conjI impI)
  assume "getAll (Suc n) fetch st (i # ids) = Some (Inr res, st')"
  from getAll_Suc_cases[OF this] obtain infoArray st1 depends where
    gb: "getBug fetch st (i # ids) = (Inr infoArray, st1)"
    and gd: "getDependencies n fetch st1 [] infoArray = Some (Inr depends, st')"
    and res: "res = map bug_id infoArray @ depends" by blast
  from getDependencies_order[OF gd] obtain subs where
    "length subs = length infoArray" "depends = concat subs"
    "\<forall>k<length infoArray. \<exists>sa sb.
       getAll n fetch sa (depends_on (infoArray ! k)) = Some (Inr (subs ! k), sb)"
    by auto
  with gb res show "\<exists>infoArray st1 subs.
         getBug fetch st (i # ids) = (Inr infoArray, st1) \<and>
         length subs = length infoArray \<and>
         res = map bug_id infoArray @ concat subs \<and>
         (\<forall>k<length infoArray. \<exists>sa sb.
            getAll n fetch sa (depends_on (infoArray ! k)) = Some (Inr (subs ! k), sb))"
    by blast
next
  show "getAll (Suc (Suc 0)) (serve [mk_bug 5000 [5001], mk_bug 5001 []]) fresh [5000]
     = Some (Inr [5000, 5001], \<lparr>checkedBugs = {5000, 5001}, requests = [[5000], [5001]]\<rparr>)"
    by (rule getAll_chain) simp
qed

theorem getAll_order_witness:
  "getAll (Suc 2) (serve [mk_bug 1 [3], mk_bug 2 [4], mk_bug 3 [5], mk_bug 4 [], mk_bug 5 []])
       fresh [1, 2]
     = Some (Inr [1, 2, 3, 5, 4],
             \<lparr>checkedBugs = {1, 2, 3, 4, 5}, requests = [[1, 2], [3], [5], [4]]\<rparr>) \<and>
   (\<exists>infoArray st1 subs.
      getBug (serve [mk_bug 1 [3], mk_bug 2 [4], mk_bug 3 [5], mk_bug 4 [], mk_bug 5 []])
          fresh [1, 2] = (Inr infoArray, st1) \<and>
      length subs = length infoArray \<and>
      [1, 2, 3, 5, 4] = map bug_id infoArray @ concat subs \<and>
      (\<forall>k<length infoArray. \<exists>sa sb.
         getAll 2 (serve [mk_bug 1 [3], mk_bug 2 [4], mk_bug 3 [5], mk_bug 4 [], mk_bug 5 []])
             sa (depends_on (infoArray ! k)) = Some (Inr (subs ! k), sb)))"
proof -
  let ?db = "[mk_bug 1 [3], mk_bug 2 [4], mk_bug 3 [5], mk_bug 4 [], mk_bug 5 []]"
  let ?st' = "\<lparr>checkedBugs = {1, 2, 3, 4, 5}, requests = [[1, 2], [3], [5], [4]]\<rparr>"
  have h: "getAll (Suc 2) (serve ?db) fresh [1, 2] = Some (Inr [1, 2, 3, 5, 4], ?st')"
    by code_simp
  from getAll_order[of 2 "serve ?db" fresh 1 "[2]" "[1, 2, 3, 5, 4]" ?st'] h
  show ?thesis by blast
qed

end
